theory Spec2Isabelle
  imports Main "HOL-Library.Word" "HOL-Library.Multiset"
begin

section \<open>JavaScript values used by docsee\<close>

text \<open>
  A JavaScript string is a sequence of UTF-16 code units; \<open>String.length\<close> counts code
  units. ASCII literals of the source are written \<open>js ''...''\<close>.
\<close>

type_synonym code_unit = "16 word"
type_synonym jsstring = "code_unit list"

definition js :: "string \<Rightarrow> jsstring" where
  "js s = map (\<lambda>c. of_nat (of_char c)) s"

text \<open>
  The values stored in the tree built by \<open>traverseRepository\<close>: a download URL (a string),
  \<open>null\<close> (the interface declares \<open>download_url: string | null\<close>), or a nested record.
  A record \<open>Record<string, unknown>\<close> is the list of its properties in the order in which
  \<open>for ... in\<close> visits them; a well-formed record has distinct keys.
\<close>

datatype jsvalue = Str jsstring | Null | Obj "(jsstring \<times> jsvalue) list"

type_synonym entries = "(jsstring \<times> jsvalue) list"

text \<open>The \<open>typeof\<close> operator. For \<open>null\<close> it answers \<open>"object"\<close>.\<close>

fun typeof :: "jsvalue \<Rightarrow> string" where
  "typeof (Str s) = ''string''"
| "typeof Null = ''object''"
| "typeof (Obj es) = ''object''"

text \<open>
  \<open>for (const key in tree)\<close> with \<open>tree[key]\<close>: the properties of an object; no iteration
  at all over \<open>null\<close>. The loop is never run over a string by this program (the callers
  pass a record, or a value whose \<open>typeof\<close> is \<open>"object"\<close>).
\<close>

fun for_in :: "jsvalue \<Rightarrow> entries" where
  "for_in (Obj es) = es"
| "for_in Null = []"
| "for_in (Str s) = []"

fun the_string :: "jsvalue \<Rightarrow> jsstring" where
  "the_string (Str s) = s"
| "the_string _ = []"

text \<open>
  \<open>result[key] = value\<close> on a plain object: an existing property keeps its place and
  takes the new value, a new property is added at the end. (Deno removes the
  \<open>__proto__\<close> accessor of \<open>Object.prototype\<close>, so every key is an ordinary one.
  JavaScript enumerates keys that are canonical array indices before the others; the
  list model keeps creation order, which differs from it only in the order of siblings.)
\<close>

fun set_prop :: "entries \<Rightarrow> jsstring \<Rightarrow> jsvalue \<Rightarrow> entries" where
  "set_prop [] k v = [(k, v)]"
| "set_prop ((k', v') # es) k v =
     (if k' = k then (k, v) # es else (k', v') # set_prop es k v)"

text \<open>\<open>s.endsWith(suffix)\<close>, compared code unit by code unit.\<close>

definition endsWith :: "jsstring \<Rightarrow> jsstring \<Rightarrow> bool" where
  "endsWith s suf \<longleftrightarrow>
     length suf \<le> length s \<and> drop (length s - length suf) s = suf"

text \<open>
  The code points that \<open>String.prototype.trim\<close> strips and that \<open>\s\<close> matches in a
  regular expression: WhiteSpace and LineTerminator of ECMAScript. All lie in the
  Basic Multilingual Plane, so each is one code unit.
\<close>

definition is_ws :: "code_unit \<Rightarrow> bool" where
  "is_ws c \<longleftrightarrow>
     c = 0x9 \<or> c = 0xA \<or> c = 0xB \<or> c = 0xC \<or> c = 0xD \<or> c = 0x20 \<or> c = 0xA0 \<or>
     c = 0x1680 \<or> (0x2000 \<le> c \<and> c \<le> 0x200A) \<or> c = 0x2028 \<or> c = 0x2029 \<or>
     c = 0x202F \<or> c = 0x205F \<or> c = 0x3000 \<or> c = 0xFEFF"

definition trim :: "jsstring \<Rightarrow> jsstring" where
  "trim s = rev (dropWhile is_ws (rev (dropWhile is_ws s)))"

text \<open>
  \<open>s.split(/\s+/)\<close>: the string is cut at every maximal run of whitespace. \<open>cur\<close> is the
  piece read since the last cut. A string that starts or ends with whitespace gives an
  empty first or last piece, and the empty string gives the one piece \<open>""\<close>.
\<close>

function split_from :: "jsstring \<Rightarrow> jsstring \<Rightarrow> jsstring list" where
  "split_from cur [] = [cur]"
| "split_from cur (c # cs) =
     (if is_ws c then cur # split_from [] (dropWhile is_ws cs)
      else split_from (cur @ [c]) cs)"
  by pat_completeness auto
termination
  by (relation "measure (\<lambda>(cur, s). length s)")
     (auto simp: length_dropWhile_le less_Suc_eq_le)

definition split_ws :: "jsstring \<Rightarrow> jsstring list" where
  "split_ws s = split_from [] s"

section \<open>The statistics aggregator: \<open>analyzeRepository\<close>\<close>

text \<open>
  The counters are JavaScript numbers holding integers; additions of such counts are
  exact below \<open>2^53\<close>, so they are natural numbers here.
\<close>

record Analysis =
  folderCount :: nat
  fileCount :: nat
  wordCount :: nat
  totalSize :: nat

datatype error = Error jsstring

text \<open>
  What \<open>await fetch(...)\<close> gives: it throws (\<open>Inl\<close>), or it returns a response with its
  \<open>ok\<close> flag, its status text, and a body whose reading (\<open>response.text()\<close>,
  \<open>response.json()\<close>) may throw in turn.
\<close>

record 'b response =
  ok :: bool
  statusText :: jsstring
  body :: "error + 'b"

text \<open>
  The network as the aggregator sees it: an assignment of fetch outcomes to URLs, fixed
  for the run.
\<close>

type_synonym file_fetch = "jsstring \<Rightarrow> error + jsstring response"

definition zero_stats :: Analysis where
  "zero_stats = \<lparr>folderCount = 0, fileCount = 0, wordCount = 0, totalSize = 0\<rparr>"

text \<open>\<open>words[0] === "" ? 0 : words.length\<close> for \<open>words = content.trim().split(/\s+/)\<close>.\<close>

definition count_words :: "jsstring \<Rightarrow> nat" where
  "count_words content =
     (let words = split_ws (trim content)
      in case words of [] \<Rightarrow> 0 | w # _ \<Rightarrow> if w = [] then 0 else length words)"

text \<open>
  The body of the \<open>try\<close> block. \<open>Inl\<close> is an exception leaving the block; both
  statements that can throw come before the first update of \<open>stats\<close>.
\<close>

definition try_fetch :: "file_fetch \<Rightarrow> jsstring \<Rightarrow> Analysis \<Rightarrow> error + Analysis" where
  "try_fetch fetch value stats =
     (case fetch value of
        Inl e \<Rightarrow> Inl e
      | Inr response \<Rightarrow>
          if ok response then
            (case body response of
               Inl e \<Rightarrow> Inl e
             | Inr content \<Rightarrow>
                 Inr (stats\<lparr>totalSize := totalSize stats + length content,
                            wordCount := wordCount stats + count_words content\<rparr>))
          else Inr stats)"

text \<open>The four \<open>+=\<close> that merge the statistics of a subtree.\<close>

definition merge_stats :: "Analysis \<Rightarrow> Analysis \<Rightarrow> Analysis" where
  "merge_stats stats subStats =
     stats\<lparr>folderCount := folderCount stats + folderCount subStats,
           fileCount := fileCount stats + fileCount subStats,
           wordCount := wordCount stats + wordCount subStats,
           totalSize := totalSize stats + totalSize subStats\<rparr>"

text \<open>
  The loop of \<open>analyzeRepository\<close> from a given value of \<open>stats\<close>. The \<open>catch\<close> clause
  only writes to the console, so after it \<open>stats\<close> is as the \<open>try\<close> block found it.
  An exception of the recursive call would leave the loop (\<open>Inl\<close>).
\<close>

function analyze_loop :: "file_fetch \<Rightarrow> entries \<Rightarrow> Analysis \<Rightarrow> error + Analysis" where
  "analyze_loop fetch [] stats = Inr stats"
| "analyze_loop fetch ((key, value) # rest) stats =
     (if typeof value = ''string'' then
        (let stats1 = stats\<lparr>fileCount := fileCount stats + 1\<rparr>;
             stats2 = (case try_fetch fetch (the_string value) stats1 of
                         Inr s \<Rightarrow> s
                       | Inl e \<Rightarrow> stats1)
         in analyze_loop fetch rest stats2)
      else if typeof value = ''object'' then
        (let stats1 = stats\<lparr>folderCount := folderCount stats + 1\<rparr>
         in case analyze_loop fetch (for_in value) zero_stats of
              Inl e \<Rightarrow> Inl e
            | Inr subStats \<Rightarrow> analyze_loop fetch rest (merge_stats stats1 subStats))
      else analyze_loop fetch rest stats)"
  by pat_completeness auto
termination
proof (relation "measure (\<lambda>(fetch, es, stats). size_list (size_prod (\<lambda>k. 0) size) es)")
  show "wf (measure (\<lambda>(fetch, es, stats). size_list (size_prod (\<lambda>k. 0) size) es))"
    by simp
next
  fix fetch :: file_fetch and key :: jsstring and "value" :: jsvalue
    and rest :: entries and stats x :: Analysis
  show "((fetch, for_in value, zero_stats), fetch, (key, value) # rest, stats)
          \<in> measure (\<lambda>(fetch, es, stats). size_list (size_prod (\<lambda>k. 0) size) es)"
    by (cases "value") simp_all
qed simp_all

definition analyzeRepository :: "file_fetch \<Rightarrow> entries \<Rightarrow> error + Analysis" where
  "analyzeRepository fetch tree = analyze_loop fetch tree zero_stats"

section \<open>The tree builder: \<open>fetchRepository\<close> and \<open>traverseRepository\<close>\<close>

text \<open>One element of a directory listing (\<open>interface GitHub\<close>).\<close>

record GitHub =
  name :: jsstring
  path :: jsstring
  type :: jsstring
  download_url :: "jsstring option"
  url :: jsstring

text \<open>
  The listing service: the answer of \<open>fetch\<close> to a URL and its request headers.
\<close>

type_synonym api_fetch =
  "jsstring \<Rightarrow> (jsstring \<times> jsstring) list \<Rightarrow> error + GitHub list response"

definition fetchRepository ::
  "api_fetch \<Rightarrow> jsstring \<Rightarrow> jsstring \<Rightarrow> jsstring \<Rightarrow> jsstring \<Rightarrow> error + GitHub list" where
  "fetchRepository api token owner repo p =
     (let apiURL = js ''https://api.github.com/repos/'' @ owner @ js ''/'' @ repo
                     @ js ''/contents/'' @ p
      in case api apiURL [(js ''Authorization'', js ''token '' @ token),
                          (js ''Accept'', js ''application/vnd.github.v3+json'')] of
           Inl e \<Rightarrow> Inl e
         | Inr response \<Rightarrow>
             if \<not> ok response then
               Inl (Error ([0x26D4] @ js '' Failed to fetch '' @ apiURL @ js '': ''
                             @ statusText response))
             else body response)"

text \<open>\<open>item.download_url\<close> as the value stored in the tree.\<close>

fun leaf_value :: "jsstring option \<Rightarrow> jsvalue" where
  "leaf_value (Some u) = Str u"
| "leaf_value None = Null"

text \<open>
  \<open>traverseRepository\<close> recurses as deep as the listings lead it, and nothing in the
  code bounds that depth. The first argument is a bound on the depth of the recursion:
  \<open>None\<close> says that the bound was reached, \<open>Some (Inl e)\<close> that the exception \<open>e\<close> left
  the call, \<open>Some (Inr tree)\<close> that the call returned \<open>tree\<close>. \<open>traverse_items\<close> is the
  loop over the items of one listing, from a given value of \<open>result\<close>.
\<close>

fun traverseRepository ::
  "nat \<Rightarrow> api_fetch \<Rightarrow> jsstring \<Rightarrow> jsstring \<Rightarrow> jsstring \<Rightarrow> jsstring
     \<Rightarrow> (error + entries) option"
and traverse_items ::
  "nat \<Rightarrow> api_fetch \<Rightarrow> jsstring \<Rightarrow> jsstring \<Rightarrow> jsstring \<Rightarrow> GitHub list \<Rightarrow> entries
     \<Rightarrow> (error + entries) option" where
  "traverseRepository 0 api token owner repo p = None"
| "traverseRepository (Suc n) api token owner repo p =
     (case fetchRepository api token owner repo p of
        Inl e \<Rightarrow> Some (Inl e)
      | Inr items \<Rightarrow> traverse_items n api token owner repo items [])"
| "traverse_items n api token owner repo [] result = Some (Inr result)"
| "traverse_items n api token owner repo (item # items) result =
     (if type item = js ''dir'' then
        (case traverseRepository n api token owner repo (path item) of
           None \<Rightarrow> None
         | Some (Inl e) \<Rightarrow> Some (Inl e)
         | Some (Inr sub) \<Rightarrow>
             traverse_items n api token owner repo items
               (set_prop result (name item) (Obj sub)))
      else if type item = js ''file'' then
        (if endsWith (name item) (js ''.md'') \<or> endsWith (name item) (js ''.mdx'') then
           traverse_items n api token owner repo items
             (set_prop result (name item) (leaf_value (download_url item)))
         else traverse_items n api token owner repo items result)
      else traverse_items n api token owner repo items result)"

section \<open>What the specification counts\<close>

text \<open>
  The quantities the specification speaks of, defined on the tree alone: the Subtree
  nodes at any depth, the Leaf entries with a null URL, and the URLs of the Leaf entries
  that have one, in the order of the walk.
\<close>

fun count_subtrees :: "entries \<Rightarrow> nat" where
  "count_subtrees [] = 0"
| "count_subtrees ((k, Obj sub) # rest) = Suc (count_subtrees sub) + count_subtrees rest"
| "count_subtrees ((k, Str u) # rest) = count_subtrees rest"
| "count_subtrees ((k, Null) # rest) = count_subtrees rest"

fun count_null_leaves :: "entries \<Rightarrow> nat" where
  "count_null_leaves [] = 0"
| "count_null_leaves ((k, Obj sub) # rest) = count_null_leaves sub + count_null_leaves rest"
| "count_null_leaves ((k, Str u) # rest) = count_null_leaves rest"
| "count_null_leaves ((k, Null) # rest) = Suc (count_null_leaves rest)"

fun count_url_leaves :: "entries \<Rightarrow> nat" where
  "count_url_leaves [] = 0"
| "count_url_leaves ((k, Obj sub) # rest) = count_url_leaves sub + count_url_leaves rest"
| "count_url_leaves ((k, Str u) # rest) = Suc (count_url_leaves rest)"
| "count_url_leaves ((k, Null) # rest) = count_url_leaves rest"

fun leaf_urls :: "entries \<Rightarrow> jsstring list" where
  "leaf_urls [] = []"
| "leaf_urls ((k, Obj sub) # rest) = leaf_urls sub @ leaf_urls rest"
| "leaf_urls ((k, Str u) # rest) = u # leaf_urls rest"
| "leaf_urls ((k, Null) # rest) = leaf_urls rest"

text \<open>
  The outcome of the fetch of one URL: the body text when the fetch succeeded, \<open>None\<close>
  when it failed (\<open>fetch\<close> threw, the status was not a success, or reading the body
  threw).
\<close>

definition fetched_body :: "file_fetch \<Rightarrow> jsstring \<Rightarrow> jsstring option" where
  "fetched_body fetch u =
     (case fetch u of
        Inl e \<Rightarrow> None
      | Inr response \<Rightarrow>
          if ok response then
            (case body response of Inl e \<Rightarrow> None | Inr content \<Rightarrow> Some content)
          else None)"

definition fetched_bodies :: "file_fetch \<Rightarrow> entries \<Rightarrow> jsstring list" where
  "fetched_bodies fetch tree = List.map_filter (fetched_body fetch) (leaf_urls tree)"

text \<open>What one file adds to \<open>wordCount\<close> and to \<open>totalSize\<close>, given the outcome of its fetch.\<close>

definition words_of :: "file_fetch \<Rightarrow> jsstring \<Rightarrow> nat" where
  "words_of fetch u =
     (case fetched_body fetch u of None \<Rightarrow> 0 | Some content \<Rightarrow> count_words content)"

definition size_of :: "file_fetch \<Rightarrow> jsstring \<Rightarrow> nat" where
  "size_of fetch u =
     (case fetched_body fetch u of None \<Rightarrow> 0 | Some content \<Rightarrow> length content)"

text \<open>The statistics as sums over the tree, one summand for each entry.\<close>

definition summary :: "file_fetch \<Rightarrow> entries \<Rightarrow> Analysis" where
  "summary fetch tree =
     \<lparr>folderCount = count_subtrees tree + count_null_leaves tree,
      fileCount = length (leaf_urls tree),
      wordCount = sum_list (map (words_of fetch) (leaf_urls tree)),
      totalSize = sum_list (map (size_of fetch) (leaf_urls tree))\<rparr>"

text \<open>
  The whitespace-delimited tokens of a text: its maximal runs of code units that are
  not whitespace. The word count of the specification: the number of tokens of the
  trimmed body, and zero for a body that is empty once trimmed.
\<close>

function tokens :: "jsstring \<Rightarrow> jsstring list" where
  "tokens [] = []"
| "tokens (c # cs) =
     (if is_ws c then tokens cs
      else (c # takeWhile (\<lambda>x. \<not> is_ws x) cs) # tokens (dropWhile (\<lambda>x. \<not> is_ws x) cs))"
  by pat_completeness auto
termination
  by (relation "measure length") (auto simp: length_dropWhile_le less_Suc_eq_le)

definition spec_word_count :: "jsstring \<Rightarrow> nat" where
  "spec_word_count content =
     (if trim content = [] then 0 else length (tokens (trim content)))"



text \<open>
  Two trees that differ only in the order of the entries inside their mappings: the
  entries of the mapping itself are permuted, or those of a subtree are, or both in
  turn.
\<close>

inductive tree_perm :: "entries \<Rightarrow> entries \<Rightarrow> bool" where
  here: "mset t = mset t' \<Longrightarrow> tree_perm t t'"
| inside: "tree_perm sub sub' \<Longrightarrow>
     tree_perm (pre @ (k, Obj sub) # post) (pre @ (k, Obj sub') # post)"
| after: "tree_perm t t' \<Longrightarrow> tree_perm t' t'' \<Longrightarrow> tree_perm t t''"

text \<open>
  The listing queries of a traversal that starts at \<open>p\<close>: the query for \<open>p\<close>, and the
  query for the path of every directory entry in the answer to one of them.
\<close>

definition subdirs ::
  "api_fetch \<Rightarrow> jsstring \<Rightarrow> jsstring \<Rightarrow> jsstring \<Rightarrow> jsstring \<Rightarrow> jsstring list" where
  "subdirs api token owner repo q =
     (case fetchRepository api token owner repo q of
        Inl e \<Rightarrow> []
      | Inr items \<Rightarrow> map path (filter (\<lambda>item. type item = js ''dir'') items))"

inductive queried ::
  "api_fetch \<Rightarrow> jsstring \<Rightarrow> jsstring \<Rightarrow> jsstring \<Rightarrow> jsstring \<Rightarrow> jsstring \<Rightarrow> bool"
  for api token owner repo p where
  root: "queried api token owner repo p p"
| nested: "queried api token owner repo p q \<Longrightarrow> q' \<in> set (subdirs api token owner repo q) \<Longrightarrow>
     queried api token owner repo p q'"

section \<open>Example repositories\<close>

text \<open>
  The scenario of the specification: \<open>a.md\<close> with the body \<open>hello world\<close> at the root,
  and a directory \<open>docs\<close> that holds \<open>b.md\<close> with an empty body.
\<close>

definition ok_response :: "'b \<Rightarrow> 'b response" where
  "ok_response b = \<lparr>ok = True, statusText = js ''OK'', body = Inr b\<rparr>"

definition url_a :: jsstring where
  "url_a = js ''https://raw.example/a.md''"

definition url_b :: jsstring where
  "url_b = js ''https://raw.example/docs/b.md''"

definition scenario_tree :: entries where
  "scenario_tree = [(js ''a.md'', Str url_a), (js ''docs'', Obj [(js ''b.md'', Str url_b)])]"

definition scenario_tree_swapped :: entries where
  "scenario_tree_swapped =
     [(js ''docs'', Obj [(js ''b.md'', Str url_b)]), (js ''a.md'', Str url_a)]"

definition scenario_fetch :: file_fetch where
  "scenario_fetch u =
     (if u = url_a then Inr (ok_response (js ''hello world''))
      else if u = url_b then Inr (ok_response [])
      else Inl (Error (js ''unreachable'')))"

text \<open>The same scenario when the fetch of \<open>b.md\<close> fails.\<close>

definition failing_fetch :: file_fetch where
  "failing_fetch u =
     (if u = url_a then Inr (ok_response (js ''hello world''))
      else Inl (Error (js ''unreachable'')))"


text \<open>
  A listing service for a repository \<open>o/r\<close>: at the root \<open>guide.md\<close>, \<open>readme.MD\<close>, the
  directory \<open>docs\<close> (with \<open>b.md\<close> and \<open>c.txt\<close>) and the directory \<open>empty\<close> (with
  nothing). \<open>broken_api\<close> is the same service when the listing of \<open>docs\<close> is refused.
\<close>

definition entry :: "string \<Rightarrow> string \<Rightarrow> string \<Rightarrow> jsstring option \<Rightarrow> GitHub" where
  "entry n p t d = \<lparr>name = js n, path = js p, type = js t, download_url = d, url = []\<rparr>"

definition contents_url :: "string \<Rightarrow> jsstring" where
  "contents_url p = js ''https://api.github.com/repos/o/r/contents/'' @ js p"

definition root_listing :: "GitHub list" where
  "root_listing =
     [entry ''guide.md'' ''guide.md'' ''file'' (Some (js ''https://raw.example/guide.md'')),
      entry ''readme.MD'' ''readme.MD'' ''file'' (Some (js ''https://raw.example/readme.MD'')),
      entry ''docs'' ''docs'' ''dir'' None,
      entry ''empty'' ''empty'' ''dir'' None]"

definition docs_listing :: "GitHub list" where
  "docs_listing =
     [entry ''b.md'' ''docs/b.md'' ''file'' (Some url_b),
      entry ''c.txt'' ''docs/c.txt'' ''file'' (Some (js ''https://raw.example/docs/c.txt''))]"

definition good_api :: api_fetch where
  "good_api u headers =
     (if u = contents_url [] then Inr (ok_response root_listing)
      else if u = contents_url ''docs'' then Inr (ok_response docs_listing)
      else if u = contents_url ''empty'' then Inr (ok_response [])
      else Inl (Error (js ''unreachable'')))"

definition broken_api :: api_fetch where
  "broken_api u headers =
     (if u = contents_url [] then Inr (ok_response root_listing)
      else if u = contents_url ''docs'' then
        Inr \<lparr>ok = False, statusText = js ''Forbidden'', body = Inr []\<rparr>
      else if u = contents_url ''empty'' then Inr (ok_response [])
      else Inl (Error (js ''unreachable'')))"

text \<open>
  The tree that the traversal of the example repository builds, and the exception that
  \<open>fetchRepository\<close> throws when the listing of \<open>docs\<close> is refused.
\<close>

definition good_tree :: entries where
  "good_tree =
     [(js ''guide.md'', Str (js ''https://raw.example/guide.md'')),
      (js ''docs'', Obj [(js ''b.md'', Str url_b)]),
      (js ''empty'', Obj [])]"

definition docs_refused :: error where
  "docs_refused =
     Error ([0x26D4] @ js '' Failed to fetch '' @ contents_url ''docs'' @ js '': Forbidden'')"

section \<open>Properties of the aggregator\<close>

subsection \<open>The loop computes a sum over the tree\<close>

lemma try_fetch_cases:
  "(case try_fetch fetch u stats of Inr s \<Rightarrow> s | Inl e \<Rightarrow> stats) =
     stats\<lparr>totalSize := totalSize stats + size_of fetch u,
           wordCount := wordCount stats + words_of fetch u\<rparr>"
  by (simp add: try_fetch_def fetched_body_def words_of_def size_of_def split: sum.splits)

lemma analyze_loop_summary:
  "analyze_loop fetch es stats = Inr (merge_stats stats (summary fetch es))"
proof (induction fetch es stats rule: analyze_loop.induct)
  case (1 fetch stats)
  show ?case
    by (simp add: merge_stats_def summary_def)
next
  case (2 fetch key "value" rest stats)
  show ?case
  proof (cases "typeof value = ''string''")
    case True
    then obtain u where Str: "value = Str u"
      by (cases "value") simp_all
    let ?s1 = "stats\<lparr>fileCount := fileCount stats + 1\<rparr>"
    let ?s2 = "case try_fetch fetch (the_string value) ?s1 of Inr s \<Rightarrow> s | Inl e \<Rightarrow> ?s1"
    have step: "analyze_loop fetch ((key, value) # rest) stats = analyze_loop fetch rest ?s2"
      using Str by (simp add: Let_def cong: sum.case_cong)
    have ih: "analyze_loop fetch rest ?s2 = Inr (merge_stats ?s2 (summary fetch rest))"
      using Str by (intro "2.IH"(1)) (simp_all cong: sum.case_cong)
    have "merge_stats ?s2 (summary fetch rest) =
            merge_stats stats (summary fetch ((key, value) # rest))"
      unfolding try_fetch_cases using Str
      by (simp add: merge_stats_def summary_def)
    with step ih show ?thesis by simp
  next
    case False
    then have ty: "typeof value \<noteq> ''string''" "typeof value = ''object''"
      by (cases "value"; simp)+
    let ?sub = "merge_stats zero_stats (summary fetch (for_in value))"
    let ?s1 = "merge_stats (stats\<lparr>folderCount := folderCount stats + 1\<rparr>) ?sub"
    have sub: "analyze_loop fetch (for_in value) zero_stats = Inr ?sub"
      using ty by (intro "2.IH"(2)) simp_all
    have ih: "analyze_loop fetch rest ?s1 = Inr (merge_stats ?s1 (summary fetch rest))"
      using ty sub by (intro "2.IH"(3)) simp_all
    have step: "analyze_loop fetch ((key, value) # rest) stats = analyze_loop fetch rest ?s1"
      using ty sub by (simp add: Let_def)
    have "merge_stats ?s1 (summary fetch rest) =
            merge_stats stats (summary fetch ((key, value) # rest))"
      using False
      by (cases "value") (simp_all add: merge_stats_def summary_def zero_stats_def)
    with step ih show ?thesis by simp
  qed
qed

lemma analyzeRepository_summary: "analyzeRepository fetch tree = Inr (summary fetch tree)"
  by (simp add: analyzeRepository_def analyze_loop_summary merge_stats_def zero_stats_def
        summary_def)

lemma length_leaf_urls: "length (leaf_urls tree) = count_url_leaves tree"
  by (induction tree rule: leaf_urls.induct) simp_all

lemma sum_fetched_bodies:
  "sum_list (map (\<lambda>u. case fetched_body fetch u of None \<Rightarrow> 0 | Some c \<Rightarrow> g c) urls) =
     sum_list (map g (List.map_filter (fetched_body fetch) urls))"
  by (induction urls) (simp_all add: List.map_filter_simps split: option.splits)

lemma folderCount_without_null_leaves:
  "count_null_leaves tree = 0 \<Longrightarrow>
     analyzeRepository fetch tree = Inr (summary fetch tree) \<and>
     folderCount (summary fetch tree) = count_subtrees tree"
  by (simp add: analyzeRepository_summary summary_def)

subsection \<open>The order of siblings\<close>

lemma perm_sum_list:
  fixes g :: "'a \<Rightarrow> 'b::comm_monoid_add"
  assumes "mset xs = mset ys"
  shows "sum_list (map g xs) = sum_list (map g ys)"
proof -
  have "sum_list (map g xs) = sum_mset (image_mset g (mset xs))"
    by (simp flip: sum_mset_sum_list)
  also have "\<dots> = sum_mset (image_mset g (mset ys))"
    using assms by simp
  also have "\<dots> = sum_list (map g ys)"
    by (simp flip: sum_mset_sum_list)
  finally show ?thesis .
qed

lemma count_subtrees_as_sum:
  "count_subtrees t =
     sum_list (map (\<lambda>e. case snd e of Obj sub \<Rightarrow> Suc (count_subtrees sub) | _ \<Rightarrow> 0) t)"
  by (induction t rule: count_subtrees.induct) simp_all

lemma count_null_leaves_as_sum:
  "count_null_leaves t =
     sum_list (map (\<lambda>e. case snd e of Obj sub \<Rightarrow> count_null_leaves sub | Null \<Rightarrow> 1 | _ \<Rightarrow> 0) t)"
  by (induction t rule: count_null_leaves.induct) simp_all

lemma leaf_urls_as_sum:
  "mset (leaf_urls t) =
     sum_list (map (\<lambda>e. case snd e of Obj sub \<Rightarrow> mset (leaf_urls sub) | Str u \<Rightarrow> {#u#}
                        | Null \<Rightarrow> {#}) t)"
  by (induction t rule: leaf_urls.induct) simp_all

lemma count_subtrees_append:
  "count_subtrees (a @ b) = count_subtrees a + count_subtrees b"
  by (induction a rule: count_subtrees.induct) simp_all

lemma count_null_leaves_append:
  "count_null_leaves (a @ b) = count_null_leaves a + count_null_leaves b"
  by (induction a rule: count_null_leaves.induct) simp_all

lemma leaf_urls_append: "leaf_urls (a @ b) = leaf_urls a @ leaf_urls b"
  by (induction a rule: leaf_urls.induct) simp_all

lemma tree_perm_counts:
  "tree_perm t t' \<Longrightarrow>
     count_subtrees t = count_subtrees t' \<and> count_null_leaves t = count_null_leaves t' \<and>
     mset (leaf_urls t) = mset (leaf_urls t')"
proof (induction rule: tree_perm.induct)
  case (here t t')
  have "count_subtrees t = count_subtrees t'"
    using perm_sum_list[OF here] count_subtrees_as_sum[of t] count_subtrees_as_sum[of t']
    by simp
  moreover have "count_null_leaves t = count_null_leaves t'"
    using perm_sum_list[OF here] count_null_leaves_as_sum[of t] count_null_leaves_as_sum[of t']
    by simp
  moreover have "mset (leaf_urls t) = mset (leaf_urls t')"
    using perm_sum_list[OF here] leaf_urls_as_sum[of t] leaf_urls_as_sum[of t']
    by simp
  ultimately show ?case by simp
next
  case (inside sub sub' pre k post)
  then show ?case
    by (simp add: count_subtrees_append count_null_leaves_append leaf_urls_append)
next
  case (after t t' t'')
  then show ?case by simp
qed

lemma tree_perm_summary: "tree_perm t t' \<Longrightarrow> summary fetch t = summary fetch t'"
proof -
  assume "tree_perm t t'"
  then have c: "count_subtrees t = count_subtrees t'"
    "count_null_leaves t = count_null_leaves t'"
    and m: "mset (leaf_urls t) = mset (leaf_urls t')"
    using tree_perm_counts by blast+
  from m have "length (leaf_urls t) = length (leaf_urls t')"
    by (rule mset_eq_length)
  with c perm_sum_list[OF m, of "words_of fetch"] perm_sum_list[OF m, of "size_of fetch"]
  show ?thesis
    by (simp add: summary_def)
qed

subsection \<open>Counting words\<close>

lemma tokens_dropWhile_ws: "tokens (dropWhile is_ws s) = tokens s"
  by (induction s) simp_all

lemma tokens_solid:
  "cur \<noteq> [] \<Longrightarrow> \<forall>x\<in>set cur. \<not> is_ws x \<Longrightarrow> tokens cur = [cur]"
  by (cases cur)
     (simp_all add: takeWhile_eq_all_conv[THEN iffD2] dropWhile_eq_Nil_conv[THEN iffD2])

lemma tokens_solid_ws:
  "cur \<noteq> [] \<Longrightarrow> \<forall>x\<in>set cur. \<not> is_ws x \<Longrightarrow> is_ws c \<Longrightarrow>
     tokens (cur @ c # cs) = cur # tokens cs"
  by (cases cur)
     (simp_all add: takeWhile_append1 takeWhile_tail dropWhile_append3 dropWhile_append2)

lemma takeWhile_append_ws:
  "\<forall>x\<in>set ws. is_ws x \<Longrightarrow>
     takeWhile (\<lambda>x. \<not> is_ws x) (cs @ ws) = takeWhile (\<lambda>x. \<not> is_ws x) cs"
proof (induction cs)
  case Nil
  then show ?case by (cases ws) simp_all
qed simp

lemma dropWhile_append_ws:
  "\<forall>x\<in>set ws. is_ws x \<Longrightarrow>
     dropWhile (\<lambda>x. \<not> is_ws x) (cs @ ws) = dropWhile (\<lambda>x. \<not> is_ws x) cs @ ws"
proof (induction cs)
  case Nil
  then show ?case by (cases ws) simp_all
qed simp

lemma tokens_append_ws: "\<forall>x\<in>set ws. is_ws x \<Longrightarrow> tokens (s @ ws) = tokens s"
proof (induction s rule: tokens.induct)
  case 1
  then show ?case by (induction ws) simp_all
next
  case (2 c cs)
  then show ?case
    by (cases "is_ws c") (simp_all add: takeWhile_append_ws dropWhile_append_ws)
qed

lemma trim_suffix:
  "dropWhile is_ws s = trim s @ rev (takeWhile is_ws (rev (dropWhile is_ws s)))"
  unfolding trim_def by (metis rev_append rev_rev_ident takeWhile_dropWhile_id)

lemma tokens_trim: "tokens (trim s) = tokens s"
proof -
  have "\<forall>x\<in>set (rev (takeWhile is_ws (rev (dropWhile is_ws s)))). is_ws x"
    by (auto dest: set_takeWhileD)
  then have "tokens (dropWhile is_ws s) = tokens (trim s)"
    using trim_suffix[of s] tokens_append_ws by metis
  then show ?thesis
    by (simp add: tokens_dropWhile_ws)
qed

lemma split_from_tokens:
  "\<forall>x\<in>set cur. \<not> is_ws x \<Longrightarrow> s = [] \<or> \<not> is_ws (last s) \<Longrightarrow>
   cur \<noteq> [] \<or> (s \<noteq> [] \<and> \<not> is_ws (hd s)) \<Longrightarrow>
   split_from cur s = tokens (cur @ s)"
proof (induction cur s rule: split_from.induct)
  case (1 cur)
  then show ?case by (simp add: tokens_solid)
next
  case (2 cur c cs)
  show ?case
  proof (cases "is_ws c")
    case True
    with 2(5) have cur: "cur \<noteq> []" by simp
    let ?d = "dropWhile is_ws cs"
    from True 2(4) have cs: "cs \<noteq> []" "\<not> is_ws (last cs)"
      by (auto split: if_splits)
    then have d1: "?d \<noteq> []"
      by (metis dropWhile_eq_Nil_conv last_in_set)
    have "last cs \<in> set cs"
      using cs(1) by simp
    then have "last ?d = last cs"
      using cs(2) by (rule dropWhile_last)
    then have d2: "\<not> is_ws (last ?d)"
      using cs(2) by simp
    have "\<not> is_ws (hd ?d)"
      using d1 hd_dropWhile by blast
    with d1 d2 True have "split_from [] ?d = tokens ([] @ ?d)"
      by (intro "2.IH"(1)) simp_all
    with True cur 2(3) show ?thesis
      by (simp add: tokens_solid_ws tokens_dropWhile_ws)
  next
    case False
    with 2 have "split_from (cur @ [c]) cs = tokens ((cur @ [c]) @ cs)"
      by (intro "2.IH"(2)) (auto split: if_splits)
    with False show ?thesis by simp
  qed
qed

lemma trim_shape:
  "trim s = [] \<or> (\<not> is_ws (hd (trim s)) \<and> \<not> is_ws (last (trim s)))"
proof (cases "trim s = []")
  case False
  let ?t = "dropWhile is_ws s"
  let ?r = "dropWhile is_ws (rev ?t)"
  from False have r: "?r \<noteq> []" by (simp add: trim_def)
  then have "\<not> is_ws (hd ?r)" using hd_dropWhile by blast
  then have l: "\<not> is_ws (last (trim s))"
    using r by (simp add: trim_def last_rev)
  have t: "?t \<noteq> []"
  proof
    assume "?t = []"
    then have "?r = []" by (simp only: rev.simps dropWhile.simps)
    with r show False by (simp only: not_True_eq_False simp_thms)
  qed
  then have "\<not> is_ws (hd ?t)" using hd_dropWhile by blast
  moreover have "hd (trim s) = hd ?t"
    using False trim_suffix[of s] by (metis hd_append2)
  ultimately show ?thesis using l by simp
qed simp

lemma tokens_nonempty: "t \<in> set (tokens s) \<Longrightarrow> t \<noteq> []"
  by (induction s rule: tokens.induct) (auto split: if_splits)

lemma split_ws_trim:
  "split_ws (trim s) = (if tokens s = [] then [[]] else tokens s)"
proof (cases "trim s = []")
  case True
  then have "tokens s = []" using tokens_trim[of s] by simp
  with True show ?thesis by (simp add: split_ws_def)
next
  case False
  with trim_shape[of s] have "split_from [] (trim s) = tokens ([] @ trim s)"
    by (intro split_from_tokens) auto
  moreover from False have "tokens (trim s) \<noteq> []"
    using trim_shape[of s] by (cases "trim s") auto
  ultimately show ?thesis by (simp add: split_ws_def tokens_trim)
qed

lemma count_words_tokens: "count_words s = length (tokens s)"
proof (cases "tokens s")
  case Nil
  then show ?thesis by (simp add: count_words_def split_ws_trim)
next
  case (Cons t ts)
  then have "t \<noteq> []" using tokens_nonempty[of t s] by simp
  with Cons show ?thesis by (simp add: count_words_def split_ws_trim)
qed

lemma count_words_spec: "count_words s = spec_word_count s"
  by (simp add: count_words_tokens spec_word_count_def tokens_trim)
     (metis tokens.simps(1) tokens_trim list.size(3))


lemma sum_words_of:
  "sum_list (map (words_of fetch) (leaf_urls tree)) =
     sum_list (map count_words (fetched_bodies fetch tree))"
proof -
  have "words_of fetch =
          (\<lambda>u. case fetched_body fetch u of None \<Rightarrow> 0 | Some c \<Rightarrow> count_words c)"
    by (rule ext) (simp add: words_of_def)
  then show ?thesis
    by (simp add: fetched_bodies_def sum_fetched_bodies)
qed

section \<open>Claims about the aggregator\<close>

text \<open>
  C1. The claim: a Leaf entry whose content URL is null is counted as neither file nor
  folder and changes no counter. The code: \<open>typeof null\<close> is \<open>"object"\<close>, so the entry takes
  the branch of the subtrees and \<open>folderCount\<close> is incremented. For the tree with the
  single entry \<open>a.md\<close> mapped to \<open>null\<close>, whatever the fetches return, the statistics
  have \<open>folderCount = 1\<close>.
\<close>

theorem null_leaf_counted_as_folder:
  "analyzeRepository fetch [(js ''a.md'', Null)] =
     Inr \<lparr>folderCount = 1, fileCount = 0, wordCount = 0, totalSize = 0\<rparr>"
  by (simp add: analyzeRepository_def zero_stats_def merge_stats_def)

text \<open>
  C2. The claim: \<open>folderCount\<close> is the number of Subtree nodes at any depth, and nothing
  else is counted as a folder. The code: every Leaf with a null URL is counted as well.
  The tree with the directory \<open>docs\<close> that holds \<open>b.md\<close> mapped to \<open>null\<close> has one Subtree
  node, and its \<open>folderCount\<close> is 2.
\<close>

theorem folderCount_exceeds_subtrees:
  "analyzeRepository fetch [(js ''docs'', Obj [(js ''b.md'', Null)])] =
     Inr \<lparr>folderCount = 2, fileCount = 0, wordCount = 0, totalSize = 0\<rparr> \<and>
   count_subtrees [(js ''docs'', Obj [(js ''b.md'', Null)])] = 1"
  by (simp add: analyzeRepository_def zero_stats_def merge_stats_def)

text \<open>
  C3. When the fetch of a file fails (\<open>fetch\<close> throws, the status is not a success, or
  reading the body throws), the aggregation still returns statistics; the file is
  counted in \<open>fileCount\<close>, which is the number of all Leaf entries with a URL; and
  \<open>wordCount\<close> and \<open>totalSize\<close> are the sums of what the other files contribute, each
  according to the outcome of its own fetch.
\<close>

theorem fetch_failure_isolated:
  assumes "fetched_body fetch u = None"
  shows "\<exists>stats. analyzeRepository fetch tree = Inr stats \<and>
           fileCount stats = count_url_leaves tree \<and>
           wordCount stats =
             sum_list (map (words_of fetch) (filter (\<lambda>v. v \<noteq> u) (leaf_urls tree))) \<and>
           totalSize stats =
             sum_list (map (size_of fetch) (filter (\<lambda>v. v \<noteq> u) (leaf_urls tree)))"
proof -
  have w: "sum_list (map (words_of fetch) urls) =
             sum_list (map (words_of fetch) (filter (\<lambda>v. v \<noteq> u) urls))" for urls
    using assms by (induction urls) (simp_all add: words_of_def)
  have s: "sum_list (map (size_of fetch) urls) =
             sum_list (map (size_of fetch) (filter (\<lambda>v. v \<noteq> u) urls))" for urls
    using assms by (induction urls) (simp_all add: size_of_def)
  show ?thesis
    using w[of "leaf_urls tree"] s[of "leaf_urls tree"]
    by (simp add: analyzeRepository_summary summary_def length_leaf_urls)
qed

text \<open>
  C4. \<open>fileCount\<close> is the number of Leaf entries of the whole tree whose URL is not null,
  whatever the fetches return.
\<close>

theorem fileCount_counts_url_leaves:
  "\<exists>stats. analyzeRepository fetch tree = Inr stats \<and>
     fileCount stats = count_url_leaves tree"
  by (simp add: analyzeRepository_summary summary_def length_leaf_urls)



text \<open>
  C6. When every file fetch succeeds, every file has a body among the fetched bodies,
  and \<open>wordCount\<close> is the sum over these bodies of the number of whitespace-delimited
  tokens of the trimmed body, a body that is empty once trimmed counting for zero.
\<close>

theorem wordCount_sum_of_tokens:
  assumes "\<forall>u\<in>set (leaf_urls tree). fetched_body fetch u \<noteq> None"
  shows "\<exists>stats. analyzeRepository fetch tree = Inr stats \<and>
           length (fetched_bodies fetch tree) = count_url_leaves tree \<and>
           wordCount stats = sum_list (map spec_word_count (fetched_bodies fetch tree))"
proof -
  have "\<forall>u\<in>set urls. fetched_body fetch u \<noteq> None \<Longrightarrow>
          length (List.map_filter (fetched_body fetch) urls) = length urls" for urls
    by (induction urls) (auto simp: List.map_filter_simps)
  with assms have "length (fetched_bodies fetch tree) = count_url_leaves tree"
    by (simp add: fetched_bodies_def length_leaf_urls)
  moreover have "count_words = spec_word_count"
    by (rule ext) (rule count_words_spec)
  ultimately show ?thesis
    by (simp add: analyzeRepository_summary summary_def sum_words_of)
qed

text \<open>
  C10. For a fixed assignment of fetch outcomes to URLs, two trees that differ only in
  the order of the entries inside their mappings, at any depth, have the same
  statistics.
\<close>

theorem statistics_independent_of_sibling_order:
  assumes "tree_perm tree tree'"
  shows "analyzeRepository fetch tree' = analyzeRepository fetch tree"
  using tree_perm_summary[OF assms, of fetch] by (simp add: analyzeRepository_summary)

theorem fetch_failure_isolated_witness:
  "fetched_body failing_fetch url_b = None \<and>
   (\<exists>stats. analyzeRepository failing_fetch scenario_tree = Inr stats \<and>
      fileCount stats = 2 \<and> wordCount stats = 2 \<and> totalSize stats = 11)"
proof -
  have ne: "url_b \<noteq> url_a"
    by (simp add: url_a_def url_b_def js_def)
  have h: "fetched_body failing_fetch url_b = None"
    using ne by (simp add: fetched_body_def failing_fetch_def)
  have a: "fetched_body failing_fetch url_a = Some (js ''hello world'')"
    by (simp add: fetched_body_def failing_fetch_def ok_response_def)
  have w: "count_words (js ''hello world'') = 2"
    by (simp add: count_words_tokens js_def is_ws_def)
  have l: "length (js ''hello world'') = 11"
    by (simp add: js_def)
  show ?thesis
    using fetch_failure_isolated[OF h, of scenario_tree] h ne a w l
    by (auto simp: scenario_tree_def words_of_def size_of_def numeral_2_eq_2)
qed


theorem wordCount_sum_of_tokens_witness:
  "map (fetched_body scenario_fetch) (leaf_urls scenario_tree) =
     [Some (js ''hello world''), Some []] \<and>
   (\<exists>stats. analyzeRepository scenario_fetch scenario_tree = Inr stats \<and>
      wordCount stats = 2)"
proof -
  have ne: "url_b \<noteq> url_a"
    by (simp add: url_a_def url_b_def js_def)
  have a: "fetched_body scenario_fetch url_a = Some (js ''hello world'')"
    by (simp add: fetched_body_def scenario_fetch_def ok_response_def)
  have b: "fetched_body scenario_fetch url_b = Some []"
    using ne by (simp add: fetched_body_def scenario_fetch_def ok_response_def)
  have h: "\<forall>u\<in>set (leaf_urls scenario_tree). fetched_body scenario_fetch u \<noteq> None"
    using a b by (simp add: scenario_tree_def)
  have bodies: "fetched_bodies scenario_fetch scenario_tree = [js ''hello world'', []]"
    using a b by (simp add: fetched_bodies_def scenario_tree_def List.map_filter_simps)
  have m: "map (fetched_body scenario_fetch) (leaf_urls scenario_tree) =
             [Some (js ''hello world''), Some []]"
    using a b by (simp add: scenario_tree_def)
  have w: "spec_word_count (js ''hello world'') = 2" "spec_word_count [] = 0"
    by (simp_all flip: count_words_spec add: count_words_tokens js_def is_ws_def)
  show ?thesis
    using wordCount_sum_of_tokens[OF h] m w by (auto simp: bodies)
qed

theorem statistics_independent_of_sibling_order_witness:
  "tree_perm scenario_tree scenario_tree_swapped \<and>
   analyzeRepository scenario_fetch scenario_tree_swapped =
     analyzeRepository scenario_fetch scenario_tree"
proof -
  have h: "tree_perm scenario_tree scenario_tree_swapped"
    unfolding scenario_tree_def scenario_tree_swapped_def
    by (rule tree_perm.here) simp
  show ?thesis
    using statistics_independent_of_sibling_order[OF h, of scenario_fetch] h by simp
qed

section \<open>Properties of the tree builder\<close>

lemma map_of_set_prop: "map_of (set_prop es k v) = (map_of es)(k \<mapsto> v)"
  by (induction es k v rule: set_prop.induct) auto

lemma traverse_items_append:
  "traverse_items n api token owner repo (pre @ rest) result =
     (case traverse_items n api token owner repo pre result of
        Some (Inr result') \<Rightarrow> traverse_items n api token owner repo rest result'
      | other \<Rightarrow> other)"
  by (induction pre arbitrary: result) (simp_all split: option.splits sum.splits)

lemma traverse_items_other_names:
  "traverse_items n api token owner repo items result = Some (Inr tree) \<Longrightarrow>
   k \<notin> name ` set items \<Longrightarrow> map_of tree k = map_of result k"
proof (induction items arbitrary: result)
  case Nil
  then show ?case by simp
next
  case (Cons x xs)
  from Cons.prems(2) have k: "k \<noteq> name x" "k \<notin> name ` set xs"
    by auto
  from Cons.prems(1) obtain result' where
    r: "traverse_items n api token owner repo xs result' = Some (Inr tree)"
    and m: "map_of result' k = map_of result k"
    using k(1) by (auto simp: map_of_set_prop split: if_splits option.splits sum.splits)
  from Cons.IH[OF r k(2)] m show ?case by simp
qed

lemma traverse_items_dir:
  "traverse_items n api token owner repo items result = Some (Inr tree) \<Longrightarrow>
   distinct (map name items) \<Longrightarrow> d \<in> set items \<Longrightarrow> type d = js ''dir'' \<Longrightarrow>
   \<exists>sub. traverseRepository n api token owner repo (path d) = Some (Inr sub) \<and>
         map_of tree (name d) = Some (Obj sub)"
proof (induction items arbitrary: result)
  case Nil
  then show ?case by simp
next
  case (Cons x xs)
  show ?case
  proof (cases "d = x")
    case True
    with Cons.prems(1,4) obtain sub where
      s: "traverseRepository n api token owner repo (path d) = Some (Inr sub)"
      and r: "traverse_items n api token owner repo xs (set_prop result (name d) (Obj sub))
                = Some (Inr tree)"
      by (auto split: option.splits sum.splits)
    from Cons.prems(2) True have "name d \<notin> name ` set xs"
      by auto
    from traverse_items_other_names[OF r this] s show ?thesis
      by (simp add: map_of_set_prop)
  next
    case False
    with Cons.prems(3) have d: "d \<in> set xs" by simp
    from Cons.prems(1) obtain result' where
      r: "traverse_items n api token owner repo xs result' = Some (Inr tree)"
      by (auto split: if_splits option.splits sum.splits)
    from Cons.prems(2) have "distinct (map name xs)" by simp
    from Cons.IH[OF r this d Cons.prems(4)] show ?thesis .
  qed
qed



lemma traverse_items_subdirs_succeed:
  "traverse_items n api token owner repo items result = Some (Inr tree) \<Longrightarrow>
   d \<in> set items \<Longrightarrow> type d = js ''dir'' \<Longrightarrow>
   \<exists>sub. traverseRepository n api token owner repo (path d) = Some (Inr sub)"
proof (induction items arbitrary: result)
  case Nil
  then show ?case by simp
next
  case (Cons x xs)
  show ?case
  proof (cases "d = x")
    case True
    with Cons.prems(1,3) show ?thesis
      by (auto split: option.splits sum.splits)
  next
    case False
    with Cons.prems(2) have d: "d \<in> set xs" by simp
    from Cons.prems(1) obtain result' where
      "traverse_items n api token owner repo xs result' = Some (Inr tree)"
      by (auto split: if_splits option.splits sum.splits)
    from Cons.IH[OF this d Cons.prems(3)] show ?thesis .
  qed
qed

lemma traverse_items_error_origin:
  "traverse_items n api token owner repo items result = Some (Inl e) \<Longrightarrow>
   \<exists>d\<in>set items. type d = js ''dir'' \<and>
      traverseRepository n api token owner repo (path d) = Some (Inl e)"
proof (induction items arbitrary: result)
  case Nil
  then show ?case by simp
next
  case (Cons x xs)
  show ?case
  proof (cases "type x = js ''dir'' \<and>
      traverseRepository n api token owner repo (path x) = Some (Inl e)")
    case True
    then show ?thesis by auto
  next
    case False
    with Cons.prems obtain result' where
      "traverse_items n api token owner repo xs result' = Some (Inl e)"
      by (auto split: if_splits option.splits sum.splits)
    from Cons.IH[OF this] show ?thesis by auto
  qed
qed

lemma queried_trans:
  "queried api token owner repo q q' \<Longrightarrow> queried api token owner repo p q \<Longrightarrow>
   queried api token owner repo p q'"
  by (induction rule: queried.induct) (auto intro: queried.intros)

lemma queried_subdir:
  "fetchRepository api token owner repo p = Inr items \<Longrightarrow> d \<in> set items \<Longrightarrow>
   type d = js ''dir'' \<Longrightarrow> queried api token owner repo p (path d)"
  by (rule queried.nested[OF queried.root]) (simp add: subdirs_def)

lemma traverse_error_origin:
  "traverseRepository n api token owner repo p = Some (Inl e) \<Longrightarrow>
   \<exists>q. queried api token owner repo p q \<and> fetchRepository api token owner repo q = Inl e"
proof (induction n arbitrary: p)
  case 0
  then show ?case by simp
next
  case (Suc n)
  show ?case
  proof (cases "fetchRepository api token owner repo p")
    case (Inl e')
    with Suc.prems have "e' = e" by simp
    with Inl show ?thesis by (auto intro: queried.root)
  next
    case (Inr items)
    with Suc.prems have "traverse_items n api token owner repo items [] = Some (Inl e)"
      by simp
    then obtain d where d: "d \<in> set items" "type d = js ''dir''"
      "traverseRepository n api token owner repo (path d) = Some (Inl e)"
      using traverse_items_error_origin by blast
    from Suc.IH[OF d(3)] obtain q where
      q: "queried api token owner repo (path d) q"
         "fetchRepository api token owner repo q = Inl e"
      by blast
    from queried_trans[OF q(1) queried_subdir[OF Inr d(1,2)]] q(2) show ?thesis
      by blast
  qed
qed

lemma traverse_success_fetch:
  "traverseRepository n api token owner repo p = Some (Inr tree) \<Longrightarrow>
   \<exists>m items. n = Suc m \<and> fetchRepository api token owner repo p = Inr items \<and>
      traverse_items m api token owner repo items [] = Some (Inr tree)"
  by (cases n) (auto split: sum.splits)

lemma traverse_success_queries:
  "queried api token owner repo p q \<Longrightarrow>
   traverseRepository n api token owner repo p = Some (Inr tree) \<Longrightarrow>
   \<exists>m sub. traverseRepository m api token owner repo q = Some (Inr sub)"
proof (induction rule: queried.induct)
  case root
  then show ?case by blast
next
  case (nested q q')
  from nested.IH[OF nested.prems] obtain m sub where
    "traverseRepository m api token owner repo q = Some (Inr sub)"
    by blast
  from traverse_success_fetch[OF this] obtain m' items where
    f: "fetchRepository api token owner repo q = Inr items"
    and t: "traverse_items m' api token owner repo items [] = Some (Inr sub)"
    by blast
  from nested.hyps(2) f obtain d where d: "d \<in> set items" "type d = js ''dir''" "q' = path d"
    by (auto simp: subdirs_def)
  from traverse_items_subdirs_succeed[OF t d(1,2)] d(3) show ?case
    by blast
qed

text \<open>
  A larger bound on the depth does not change what a traversal returned within a
  smaller one.
\<close>

lemma traverse_items_more_fuel:
  assumes "\<And>q x. traverseRepository n api token owner repo q = Some x \<Longrightarrow>
            traverseRepository (Suc n) api token owner repo q = Some x"
  shows "traverse_items n api token owner repo items result = Some y \<Longrightarrow>
         traverse_items (Suc n) api token owner repo items result = Some y"
proof (induction items arbitrary: result)
  case Nil
  then show ?case by simp
next
  case (Cons x xs)
  show ?case
  proof (cases "type x = js ''dir''")
    case True
    with Cons.prems obtain r where
      r: "traverseRepository n api token owner repo (path x) = Some r"
      by (auto split: option.splits)
    from assms[OF r] r True Cons.prems Cons.IH show ?thesis
      by (cases r) (auto simp del: traverseRepository.simps)
  next
    case False
    with Cons.prems Cons.IH show ?thesis
      by (auto simp del: traverseRepository.simps split: if_splits)
  qed
qed

lemma traverse_more_fuel:
  "traverseRepository n api token owner repo p = Some x \<Longrightarrow>
   traverseRepository (Suc n) api token owner repo p = Some x"
proof (induction n arbitrary: p x)
  case 0
  then show ?case by simp
next
  case (Suc n)
  show ?case
  proof (cases "fetchRepository api token owner repo p")
    case (Inl e)
    with Suc.prems show ?thesis by simp
  next
    case (Inr items)
    with Suc.prems have "traverse_items n api token owner repo items [] = Some x"
      by simp
    from traverse_items_more_fuel[OF Suc.IH this] Inr show ?thesis
      by simp
  qed
qed

subsection \<open>The example listing service\<close>

lemma fetch_good_api:
  "fetchRepository good_api t (js ''o'') (js ''r'') [] = Inr root_listing"
  "fetchRepository good_api t (js ''o'') (js ''r'') (js ''docs'') = Inr docs_listing"
  "fetchRepository good_api t (js ''o'') (js ''r'') (js ''empty'') = Inr []"
  by (simp_all add: fetchRepository_def good_api_def contents_url_def ok_response_def js_def)

lemma fetch_broken_api:
  "fetchRepository broken_api t (js ''o'') (js ''r'') [] = Inr root_listing"
  "fetchRepository broken_api t (js ''o'') (js ''r'') (js ''docs'') = Inl docs_refused"
  "fetchRepository broken_api t (js ''o'') (js ''r'') (js ''empty'') = Inr []"
  by (simp_all add: fetchRepository_def broken_api_def contents_url_def ok_response_def
        docs_refused_def js_def)

lemma endsWith_examples:
  "endsWith (js ''guide.md'') (js ''.md'')"
  "\<not> endsWith (js ''readme.MD'') (js ''.md'')"
  "\<not> endsWith (js ''readme.MD'') (js ''.mdx'')"
  "endsWith (js ''b.md'') (js ''.md'')"
  "\<not> endsWith (js ''c.txt'') (js ''.md'')"
  "\<not> endsWith (js ''c.txt'') (js ''.mdx'')"
  by (simp_all add: endsWith_def js_def)

lemma type_examples:
  "js ''file'' \<noteq> js ''dir''" "js ''dir'' \<noteq> js ''file''"
  by (simp_all add: js_def)

lemma traverse_docs_good:
  "traverseRepository (Suc 0) good_api t (js ''o'') (js ''r'') (js ''docs'') =
     Some (Inr [(js ''b.md'', Str url_b)])"
  by (simp add: fetch_good_api docs_listing_def entry_def endsWith_examples type_examples)

lemma traverse_empty_good:
  "traverseRepository (Suc 0) good_api t (js ''o'') (js ''r'') (js ''empty'') = Some (Inr [])"
  by (simp add: fetch_good_api)

lemma name_examples:
  "js ''guide.md'' \<noteq> js ''docs''" "js ''guide.md'' \<noteq> js ''empty''"
  "js ''docs'' \<noteq> js ''empty''" "js ''readme.MD'' \<noteq> js ''guide.md''"
  "js ''readme.MD'' \<noteq> js ''docs''" "js ''readme.MD'' \<noteq> js ''empty''"
  "js ''empty'' \<noteq> js ''guide.md''" "js ''empty'' \<noteq> js ''docs''"
  "js ''docs'' \<noteq> js ''guide.md''" "js ''guide.md'' \<noteq> js ''readme.MD''"
  by (simp_all add: js_def)

lemma traverse_root_good:
  "traverseRepository (Suc (Suc 0)) good_api t (js ''o'') (js ''r'') [] = Some (Inr good_tree)"
proof -
  have "traverseRepository (Suc (Suc 0)) good_api t (js ''o'') (js ''r'') [] =
          traverse_items (Suc 0) good_api t (js ''o'') (js ''r'') root_listing []"
    by (simp add: fetch_good_api)
  also have "\<dots> = Some (Inr good_tree)"
    using traverse_docs_good[of t] traverse_empty_good[of t]
    by (simp add: root_listing_def entry_def endsWith_examples type_examples
          name_examples good_tree_def del: traverseRepository.simps)
  finally show ?thesis .
qed

lemma root_listing_names: "distinct (map name root_listing)"
  by (simp add: root_listing_def entry_def name_examples)

section \<open>Claims about the tree builder\<close>



text \<open>
  C8. A failure of the listing service makes the whole traversal fail. If the query for
  the root fails, the traversal ends with that failure. If the traversal of a directory
  entry ends with a failure, after the entries before it were handled without one, the
  traversal of the parent ends with the same failure, whatever entries follow. And if
  any query of the traversal fails, a traversal that ends returns no tree: it ends
  with the failure of one of its queries, unchanged.
\<close>

theorem listing_failure_aborts_traversal:
  "(fetchRepository api token owner repo p = Inl e \<longrightarrow>
      traverseRepository (Suc n) api token owner repo p = Some (Inl e)) \<and>
   (fetchRepository api token owner repo p = Inr (pre @ d # post) \<and>
    traverse_items n api token owner repo pre [] = Some (Inr result) \<and>
    type d = js ''dir'' \<and>
    traverseRepository n api token owner repo (path d) = Some (Inl e) \<longrightarrow>
      traverseRepository (Suc n) api token owner repo p = Some (Inl e)) \<and>
   (queried api token owner repo p q \<and> fetchRepository api token owner repo q = Inl e \<and>
    traverseRepository fuel api token owner repo p = Some r \<longrightarrow>
      (\<exists>e' q'. r = Inl e' \<and> queried api token owner repo p q' \<and>
         fetchRepository api token owner repo q' = Inl e'))"
proof (intro conjI impI)
  assume "fetchRepository api token owner repo p = Inl e"
  then show "traverseRepository (Suc n) api token owner repo p = Some (Inl e)"
    by simp
next
  assume "fetchRepository api token owner repo p = Inr (pre @ d # post) \<and>
    traverse_items n api token owner repo pre [] = Some (Inr result) \<and>
    type d = js ''dir'' \<and>
    traverseRepository n api token owner repo (path d) = Some (Inl e)"
  then have l: "fetchRepository api token owner repo p = Inr (pre @ d # post)"
    and pre: "traverse_items n api token owner repo pre [] = Some (Inr result)"
    and d: "type d = js ''dir''"
      "traverseRepository n api token owner repo (path d) = Some (Inl e)"
    by simp_all
  have "traverseRepository (Suc n) api token owner repo p =
          traverse_items n api token owner repo (pre @ d # post) []"
    using l by simp
  also have "\<dots> = traverse_items n api token owner repo (d # post) result"
    using pre by (simp add: traverse_items_append)
  also have "\<dots> = Some (Inl e)"
    using d by simp
  finally show "traverseRepository (Suc n) api token owner repo p = Some (Inl e)" .
next
  assume a: "queried api token owner repo p q \<and>
    fetchRepository api token owner repo q = Inl e \<and>
    traverseRepository fuel api token owner repo p = Some r"
  show "\<exists>e' q'. r = Inl e' \<and> queried api token owner repo p q' \<and>
          fetchRepository api token owner repo q' = Inl e'"
  proof (cases r)
    case (Inl e')
    with a traverse_error_origin[of fuel api token owner repo p e'] show ?thesis
      by blast
  next
    case (Inr tree)
    with a traverse_success_queries[of api token owner repo p q fuel tree]
    obtain m sub where "traverseRepository m api token owner repo q = Some (Inr sub)"
      by blast
    from traverse_success_fetch[OF this] a show ?thesis
      by auto
  qed
qed

theorem listing_failure_aborts_traversal_witness:
  "traverseRepository (Suc 0) broken_api (js ''t'') (js ''o'') (js ''r'') (js ''docs'') =
     Some (Inl docs_refused) \<and>
   traverseRepository (Suc (Suc 0)) broken_api (js ''t'') (js ''o'') (js ''r'') [] =
     Some (Inl docs_refused) \<and>
   queried broken_api (js ''t'') (js ''o'') (js ''r'') [] (js ''docs'') \<and>
   (\<exists>q'. queried broken_api (js ''t'') (js ''o'') (js ''r'') [] q' \<and>
      fetchRepository broken_api (js ''t'') (js ''o'') (js ''r'') q' = Inl docs_refused)"
proof -
  let ?guide = "entry ''guide.md'' ''guide.md'' ''file'' (Some (js ''https://raw.example/guide.md''))"
  let ?readme = "entry ''readme.MD'' ''readme.MD'' ''file'' (Some (js ''https://raw.example/readme.MD''))"
  let ?docs = "entry ''docs'' ''docs'' ''dir'' None"
  let ?empty = "entry ''empty'' ''empty'' ''dir'' None"
  note f = fetch_broken_api[of "js ''t''"]
  from listing_failure_aborts_traversal
         [of broken_api "js ''t''" "js ''o''" "js ''r''" "js ''docs''" docs_refused 0] f(2)
  have one: "traverseRepository (Suc 0) broken_api (js ''t'') (js ''o'') (js ''r'') (js ''docs'')
               = Some (Inl docs_refused)"
    by blast
  have l: "fetchRepository broken_api (js ''t'') (js ''o'') (js ''r'') [] =
             Inr ([?guide, ?readme] @ ?docs # [?empty])"
    using f(1) by (simp add: root_listing_def)
  have pre: "traverse_items (Suc 0) broken_api (js ''t'') (js ''o'') (js ''r'')
               [?guide, ?readme] [] =
             Some (Inr [(js ''guide.md'', Str (js ''https://raw.example/guide.md''))])"
    by (simp add: entry_def endsWith_examples type_examples del: traverseRepository.simps)
  have d: "type ?docs = js ''dir''" "path ?docs = js ''docs''"
    by (simp_all add: entry_def)
  from listing_failure_aborts_traversal
         [of broken_api "js ''t''" "js ''o''" "js ''r''" "[]" docs_refused "Suc 0"
             "[?guide, ?readme]" ?docs "[?empty]"
             "[(js ''guide.md'', Str (js ''https://raw.example/guide.md''))]"]
       l pre d one
  have two: "traverseRepository (Suc (Suc 0)) broken_api (js ''t'') (js ''o'') (js ''r'') []
               = Some (Inl docs_refused)"
    by (simp del: traverseRepository.simps)
  have q: "queried broken_api (js ''t'') (js ''o'') (js ''r'') [] (js ''docs'')"
    using queried_subdir[OF l, of ?docs] d by simp
  from listing_failure_aborts_traversal
         [of broken_api "js ''t''" "js ''o''" "js ''r''" "[]" docs_refused _ _ _ _ _
             "js ''docs''" "Suc (Suc 0)" "Inl docs_refused"]
       q f(2) two
  have three: "\<exists>q'. queried broken_api (js ''t'') (js ''o'') (js ''r'') [] q' \<and>
      fetchRepository broken_api (js ''t'') (js ''o'') (js ''r'') q' = Inl docs_refused"
    by blast
  from one two q three show ?thesis by blast
qed

lemma traverse_items_returns:
  "\<forall>d\<in>set items. type d = js ''dir'' \<longrightarrow>
     (\<exists>sub. traverseRepository n api token owner repo (path d) = Some (Inr sub)) \<Longrightarrow>
   \<exists>tree. traverse_items n api token owner repo items result = Some (Inr tree)"
proof (induction items arbitrary: result)
  case Nil
  then show ?case by simp
next
  case (Cons x xs)
  from Cons.prems have rest: "\<forall>d\<in>set xs. type d = js ''dir'' \<longrightarrow>
     (\<exists>sub. traverseRepository n api token owner repo (path d) = Some (Inr sub))"
    by simp
  show ?case
  proof (cases "type x = js ''dir''")
    case True
    with Cons.prems obtain sub where
      "traverseRepository n api token owner repo (path x) = Some (Inr sub)"
      by auto
    with True Cons.IH[OF rest, of "set_prop result (name x) (Obj sub)"] show ?thesis
      by (simp del: traverseRepository.simps)
  next
    case False
    with Cons.IH[OF rest] show ?thesis
      by (simp del: traverseRepository.simps)
  qed
qed

text \<open>
  C9. For a directory listing (its entries have pairwise distinct names) in which the
  traversal of every directory entry returns a subtree, the traversal of the listing
  returns a tree, and in this tree every directory entry is mapped to the subtree that
  the traversal of its path returned, whatever that subtree is: no test on the subtree
  stands before the insertion. When the subtree is empty, the directory is in the tree
  as an empty Subtree.
\<close>

theorem directories_always_inserted:
  assumes "fetchRepository api token owner repo p = Inr items"
    and "distinct (map name items)"
    and "\<forall>d\<in>set items. type d = js ''dir'' \<longrightarrow>
           (\<exists>sub. traverseRepository n api token owner repo (path d) = Some (Inr sub))"
  shows "\<exists>tree. traverseRepository (Suc n) api token owner repo p = Some (Inr tree) \<and>
           (\<forall>d\<in>set items. type d = js ''dir'' \<longrightarrow>
              (\<exists>sub. traverseRepository n api token owner repo (path d) = Some (Inr sub) \<and>
                     map_of tree (name d) = Some (Obj sub)) \<and>
              (traverseRepository n api token owner repo (path d) = Some (Inr []) \<longrightarrow>
                 map_of tree (name d) = Some (Obj [])))"
proof -
  from traverse_items_returns[OF assms(3), of "[]"] obtain tree where
    t: "traverse_items n api token owner repo items [] = Some (Inr tree)"
    by blast
  with assms(1) have r: "traverseRepository (Suc n) api token owner repo p = Some (Inr tree)"
    by simp
  have "(\<exists>sub. traverseRepository n api token owner repo (path d) = Some (Inr sub) \<and>
               map_of tree (name d) = Some (Obj sub)) \<and>
        (traverseRepository n api token owner repo (path d) = Some (Inr []) \<longrightarrow>
           map_of tree (name d) = Some (Obj []))"
    if "d \<in> set items" "type d = js ''dir''" for d
    using traverse_items_dir[OF t assms(2) that] by auto
  with r show ?thesis
    by blast
qed

theorem directories_always_inserted_witness:
  "traverseRepository (Suc 0) good_api (js ''t'') (js ''o'') (js ''r'') (js ''docs'') =
     Some (Inr [(js ''b.md'', Str url_b)]) \<and>
   traverseRepository (Suc 0) good_api (js ''t'') (js ''o'') (js ''r'') (js ''empty'') =
     Some (Inr []) \<and>
   traverseRepository (Suc (Suc 0)) good_api (js ''t'') (js ''o'') (js ''r'') [] =
     Some (Inr good_tree) \<and>
   map_of good_tree (js ''docs'') = Some (Obj [(js ''b.md'', Str url_b)]) \<and>
   map_of good_tree (js ''empty'') = Some (Obj [])"
proof -
  let ?docs = "entry ''docs'' ''docs'' ''dir'' None"
  let ?empty = "entry ''empty'' ''empty'' ''dir'' None"
  note sd = traverse_docs_good[of "js ''t''"] and se = traverse_empty_good[of "js ''t''"]
  have h: "\<forall>d\<in>set root_listing. type d = js ''dir'' \<longrightarrow>
      (\<exists>sub. traverseRepository (Suc 0) good_api (js ''t'') (js ''o'') (js ''r'') (path d)
                = Some (Inr sub))"
    using sd se
    by (simp add: root_listing_def entry_def type_examples del: traverseRepository.simps)
  from directories_always_inserted
         [OF fetch_good_api(1)[of "js ''t''"] root_listing_names h]
  obtain tree where
    t: "traverseRepository (Suc (Suc 0)) good_api (js ''t'') (js ''o'') (js ''r'') [] =
          Some (Inr tree)"
    and m: "\<forall>d\<in>set root_listing. type d = js ''dir'' \<longrightarrow>
      (\<exists>sub. traverseRepository (Suc 0) good_api (js ''t'') (js ''o'') (js ''r'') (path d)
                = Some (Inr sub) \<and> map_of tree (name d) = Some (Obj sub))"
    by blast
  have mem: "?docs \<in> set root_listing" "?empty \<in> set root_listing"
    and ty: "type ?docs = js ''dir''" "type ?empty = js ''dir''"
    and pn: "path ?docs = js ''docs''" "name ?docs = js ''docs''"
      "path ?empty = js ''empty''" "name ?empty = js ''empty''"
    by (simp_all add: root_listing_def entry_def)
  from m mem(1) ty(1) obtain sub where
    "traverseRepository (Suc 0) good_api (js ''t'') (js ''o'') (js ''r'') (path ?docs) =
       Some (Inr sub)"
    "map_of tree (name ?docs) = Some (Obj sub)"
    by blast
  with sd have d: "map_of tree (js ''docs'') = Some (Obj [(js ''b.md'', Str url_b)])"
    by (simp add: pn del: traverseRepository.simps)
  from m mem(2) ty(2) obtain sub' where
    "traverseRepository (Suc 0) good_api (js ''t'') (js ''o'') (js ''r'') (path ?empty) =
       Some (Inr sub')"
    "map_of tree (name ?empty) = Some (Obj sub')"
    by blast
  with se have e: "map_of tree (js ''empty'') = Some (Obj [])"
    by (simp add: pn del: traverseRepository.simps)
  from t traverse_root_good[of "js ''t''"] have "tree = good_tree"
    by (simp del: traverseRepository.simps)
  with t d e sd se show ?thesis
    by (simp del: traverseRepository.simps)
qed

end
